theory Spec2Isabelle
  imports Complex_Main "HOL-Library.Sublist"
begin

section \<open>C library functions used by aelist.c\<close>

text \<open>
  A C string is modelled as a \<^typ>\<open>string\<close>: the bytes before the terminating NUL.
  A \<open>char *\<close> result that may be \<open>NULL\<close> is an \<open>option\<close>.
\<close>

text \<open>\<open>strcmp\<close>: only the sign of the result is fixed by the C standard.\<close>

fun strcmp :: "string \<Rightarrow> string \<Rightarrow> int" where
  "strcmp [] [] = 0"
| "strcmp [] (y # ys) = - 1"
| "strcmp (x # xs) [] = 1"
| "strcmp (x # xs) (y # ys) =
     (if x = y then strcmp xs ys
      else if (of_char x :: nat) < of_char y then - 1 else 1)"

text \<open>
  \<open>strstr haystack needle\<close>: a pointer to the first occurrence of \<open>needle\<close> in
  \<open>haystack\<close>, here its offset, or \<open>NULL\<close>. An empty needle is found at offset 0.
\<close>

fun strstr :: "string \<Rightarrow> string \<Rightarrow> nat option" where
  "strstr [] needle = (if needle = [] then Some 0 else None)"
| "strstr (h # hs) needle =
     (if prefix needle (h # hs) then Some 0
      else map_option Suc (strstr hs needle))"

text \<open>
  \<open>snprintf(buf, sz, "%s", src)\<close>: at most \<open>sz - 1\<close> bytes of \<open>src\<close> are stored,
  followed by the terminating NUL.
\<close>

definition snprintf_s :: "nat \<Rightarrow> string \<Rightarrow> string" where
  "snprintf_s sz src = take (sz - 1) src"

text \<open>Decimal digits of an unsigned number, as \<open>%lu\<close> and \<open>%ld\<close> print a count.\<close>

definition digit :: "nat \<Rightarrow> char" where
  "digit d = ''0123456789'' ! d"

fun dec :: "nat \<Rightarrow> string" where
  "dec n = (if n < 10 then [digit n] else dec (n div 10) @ [digit (n mod 10)])"

declare dec.simps [simp del]

section \<open>The byte-size formatter\<close>

text \<open>
  A \<open>double\<close> holding a finite value is the rational number it denotes. The
  conversion \<open>(double)n\<close> of a \<open>size_t\<close> (64 bits) rounds to a 53-bit significand,
  to nearest and ties to even; it is exact below \<open>2 ^ 53\<close>.
\<close>

fun bitlen :: "nat \<Rightarrow> nat" where
  "bitlen n = (if n = 0 then 0 else Suc (bitlen (n div 2)))"

declare bitlen.simps [simp del]

definition double_of_size_t :: "nat \<Rightarrow> rat" where
  "double_of_size_t n =
     (if n < 2 ^ 53 then of_nat n
      else let e = bitlen n - 53;
               q = n div 2 ^ e;
               r = n mod 2 ^ e;
               half = 2 ^ (e - 1)
           in of_nat ((if half < r \<or> (r = half \<and> odd q) then q + 1 else q) * 2 ^ e))"

text \<open>
  \<open>%.2f\<close> of a non-negative value: the decimal expansion rounded to two places
  after the point, to nearest and ties to even on the exact value.
\<close>

definition round_half_even :: "rat \<Rightarrow> nat" where
  "round_half_even x =
     (let f = nat \<lfloor>x\<rfloor>; d = x - of_nat f
      in if d < 1 / 2 then f
         else if 1 / 2 < d then f + 1
         else if even f then f else f + 1)"

definition fmt_2f :: "rat \<Rightarrow> string" where
  "fmt_2f c =
     (let h = round_half_even (c * 100)
      in dec (h div 100) @ ''.'' @ [digit (h div 10 mod 10), digit (h mod 10)])"

definition units :: "string list" where
  "units = [''B'', ''KiB'', ''MiB'', ''GiB'', ''TiB'', ''PiB'', ''EiB'']"

text \<open>
  The loop \<open>for (n = 0; c >= 1024 && n < 6; n++) c /= 1024;\<close> entered at \<open>(c, n)\<close>.
  Dividing a \<open>double\<close> of at least 1024 by 1024 only lowers its exponent, so the
  quotient is exact.
\<close>

function bytesfmt_loop :: "rat \<Rightarrow> nat \<Rightarrow> rat \<times> nat" where
  "bytesfmt_loop c n =
     (if 1024 \<le> c \<and> n < 6 then bytesfmt_loop (c / 1024) (n + 1) else (c, n))"
  by pat_completeness auto
termination
  by (relation "measure (\<lambda>(c, n). 6 - n)") auto

declare bytesfmt_loop.simps [simp del]

text \<open>\<open>snprintf(fmt, sizeof(fmt), "%.2f %s", c, units[n])\<close> with \<open>char fmt[32]\<close>.\<close>

definition bytesfmt :: "nat \<Rightarrow> string" where
  "bytesfmt n0 =
     (case bytesfmt_loop (double_of_size_t n0) 0 of
        (c, n) \<Rightarrow> take 31 (fmt_2f c @ '' '' @ units ! n))"

section \<open>The executable index and the selection state\<close>

record exe_t =
  name :: string
  path :: string
  siz :: nat

datatype mode_t = MODESHORT | MODELINE | MODELONG

text \<open>
  The options read by \<open>search\<close>: \<open>mode\<close>, \<open>nprompt\<close> (converted to \<open>size_t\<close> in
  \<open>fi <= nprompt\<close>; option parsing keeps it within \<open>1 .. INT_MAX\<close>) and whether
  \<open>Sflag\<close> is non-zero.
\<close>

record conf =
  mode :: mode_t
  nprompt :: nat
  Sflag :: bool

text \<open>The curses calls of \<open>search\<close>, recorded in the order they are made.\<close>

datatype draw =
  Mvprintw nat nat string
| Mvhline nat nat nat
| Move nat nat
| Clrtoeol

datatype failure = NullPointer | OutOfBounds | TooManyPaths | NotFoundFiles | NoMemory

text \<open>
  The variables \<open>search\<close> works on: the array \<open>ev\<close> (with \<open>evsiz = length ev\<close>), the
  pointer \<open>last\<close> (\<open>None\<close> is \<open>NULL\<close>, \<open>Some m\<close> is \<open>&ev[m]\<close>), the locals \<open>s\<close> and
  \<open>fi\<close>, and the screen output so far.
\<close>

record search_st =
  ev :: "exe_t list"
  lastp :: "nat option"
  s_exact :: bool
  fi :: nat
  scr :: "draw list"

text \<open>\<open>--sum\<close> on a \<open>size_t\<close>.\<close>

definition size_t_dec :: "nat \<Rightarrow> nat" where
  "size_t_dec x = (if x = 0 then 2 ^ 64 - 1 else x - 1)"

text \<open>\<open>while (n--) if (!strstr(ev[n].name, in)) --sum;\<close>\<close>

fun count_loop :: "exe_t list \<Rightarrow> string \<Rightarrow> nat \<Rightarrow> nat \<Rightarrow> nat" where
  "count_loop evs inp 0 sm = sm"
| "count_loop evs inp (Suc n) sm =
     count_loop evs inp n
       (if strstr (name (evs ! n)) inp = None then size_t_dec sm else sm)"

text \<open>
  One iteration of the \<open>for\<close> loop of \<open>search\<close>, at index \<open>n < evsiz\<close>; the query
  \<open>in\<close> is written \<open>inp\<close> and the match count \<open>sum\<close> is written \<open>sm\<close>. The
  assignment \<open>*last = ev[n]\<close> and the read \<open>last->path\<close> go through the pointer:
  with \<open>last == NULL\<close> they fault.
\<close>

definition search_body ::
  "conf \<Rightarrow> string \<Rightarrow> nat \<Rightarrow> nat \<Rightarrow> search_st \<Rightarrow> failure + search_st" where
  "search_body cf inp sm n st =
     (case (if strcmp (name (ev st ! n)) inp = 0
            then (case lastp st of
                    None \<Rightarrow> Inl NullPointer
                  | Some m \<Rightarrow> Inr (st\<lparr>ev := (ev st)[m := ev st ! n], s_exact := True\<rparr>))
            else Inr st) of
        Inl e \<Rightarrow> Inl e
      | Inr st1 \<Rightarrow>
          if strstr (name (ev st1 ! n)) inp \<noteq> None then
            (let st2 = (if \<not> s_exact st1 then st1\<lparr>lastp := Some n\<rparr> else st1)
             in case (if mode cf = MODELONG \<or> mode cf = MODESHORT
                      then (case lastp st2 of
                              None \<Rightarrow> Inl NullPointer
                            | Some l \<Rightarrow>
                                Inr [Mvprintw (if Sflag cf then 0 else 1) 0
                                       (''exec '' @ path (ev st2 ! l) @ '' ('' @
                                        bytesfmt (siz (ev st2 ! n)) @ '') '' @
                                        dec sm @ [CHR 0x0A])])
                      else Inr []) of
                  Inl e \<Rightarrow> Inl e
                | Inr d1 \<Rightarrow>
                    (let d2 = (if mode cf = MODELONG
                               then [Mvhline (if Sflag cf then 2 else 3) 0 45,
                                     Mvprintw (fi st2 + (if Sflag cf then 2 else 3)) 0
                                       (name (ev st2 ! n) @ [CHR 0x0A])]
                               else [])
                     in Inr (st2\<lparr>fi := fi st2 + 1, scr := scr st2 @ d1 @ d2\<rparr>)))
          else Inr st1)"

text \<open>\<open>for (n = 0; n < evsiz && fi <= nprompt; n++)\<close>, entered at \<open>n\<close>.\<close>

function search_loop ::
  "conf \<Rightarrow> string \<Rightarrow> nat \<Rightarrow> nat \<Rightarrow> search_st \<Rightarrow> failure + search_st" where
  "search_loop cf inp sm n st =
     (if n < length (ev st) \<and> fi st \<le> nprompt cf
      then (case search_body cf inp sm n st of
              Inl e \<Rightarrow> Inl e
            | Inr st' \<Rightarrow> search_loop cf inp sm (Suc n) st')
      else Inr st)"
  by pat_completeness auto
termination
proof (relation "measure (\<lambda>(cf, inp, sm, n, st). length (ev st) - n)")
  fix cf :: conf and inp :: string and sm n :: nat and st st' :: search_st
  assume "n < length (ev st) \<and> fi st \<le> nprompt cf"
    and "search_body cf inp sm n st = Inr st'"
  then have "length (ev st') = length (ev st)" and "n < length (ev st)"
    by (auto simp: search_body_def Let_def split: if_splits option.splits sum.splits)
  then show "((cf, inp, sm, Suc n, st'), (cf, inp, sm, n, st))
      \<in> measure (\<lambda>(cf, inp, sm, n, st). length (ev st) - n)"
    by simp
qed simp

declare search_loop.simps [simp del]

text \<open>\<open>while (fi <= nprompt) { move(fi++ + ((Sflag) ? 2 : 3), 0); clrtoeol(); }\<close>\<close>

function clear_loop :: "conf \<Rightarrow> search_st \<Rightarrow> search_st" where
  "clear_loop cf st =
     (if fi st \<le> nprompt cf
      then clear_loop cf
             (st\<lparr>fi := fi st + 1,
                 scr := scr st @ [Move (fi st + (if Sflag cf then 2 else 3)) 0, Clrtoeol]\<rparr>)
      else st)"
  by pat_completeness auto
termination
  by (relation "measure (\<lambda>(cf, st). nprompt cf + 1 - fi st)") auto

declare clear_loop.simps [simp del]

text \<open>
  \<open>search(in)\<close> run on the array \<open>evs\<close> with \<open>last = lp\<close> and the cursor at \<open>(y, x)\<close>.
  The result holds the array and \<open>last\<close> as the call leaves them, and \<open>sum\<close>.
\<close>

definition search ::
  "conf \<Rightarrow> nat \<times> nat \<Rightarrow> string \<Rightarrow> exe_t list \<Rightarrow> nat option \<Rightarrow>
   failure + (search_st \<times> nat)" where
  "search cf yx inp evs lp =
     (let sm = count_loop evs inp (length evs) (length evs)
      in case search_loop cf inp sm 0
                \<lparr>ev = evs, lastp = lp, s_exact = False, fi = 1, scr = []\<rparr> of
           Inl e \<Rightarrow> Inl e
         | Inr st \<Rightarrow>
             (let st' = clear_loop cf st
              in Inr (st'\<lparr>scr := scr st' @ [Move (fst yx) (snd yx)]\<rparr>, sm)))"

text \<open>The array, \<open>last\<close> and \<open>sum\<close> as a call of \<open>search\<close> leaves them.\<close>

definition outcome ::
  "failure + (search_st \<times> nat) \<Rightarrow> failure + (exe_t list \<times> nat option \<times> nat)" where
  "outcome r = map_sum id (\<lambda>(st, sm). (ev st, lastp st, sm)) r"

text \<open>
  The indices, in index order, of the records whose name contains the query as a
  substring.
\<close>

definition match_indices :: "string \<Rightarrow> exe_t list \<Rightarrow> nat list" where
  "match_indices inp evs = filter (\<lambda>i. sublist inp (name (evs ! i))) [0..<length evs]"

section \<open>The search-path list\<close>

definition MAXPATHS :: nat where
  "MAXPATHS = 512"

text \<open>
  \<open>strtok\<close> scanning from \<open>s\<close> (the string of the first call, or the position saved
  by the previous one): \<open>None\<close> is \<open>NULL\<close>; otherwise the token and the position
  saved for the next call.
\<close>

definition strtok :: "string \<Rightarrow> string \<Rightarrow> (string \<times> string) option" where
  "strtok s delim =
     (let s1 = dropWhile (\<lambda>c. c \<in> set delim) s
      in if s1 = [] then None
         else Some (takeWhile (\<lambda>c. c \<notin> set delim) s1,
                    drop 1 (dropWhile (\<lambda>c. c \<notin> set delim) s1)))"

text \<open>
  The \<open>while (token)\<close> loop of \<open>parsepath\<close>, entered with the result of the last
  \<open>strtok\<close> call. The array \<open>pv\<close> has \<open>MAXPATHS\<close> entries; a store at
  \<open>pv[psiz]\<close> with \<open>psiz >= MAXPATHS\<close> is outside it.
\<close>

function parsepath_loop ::
  "string option list \<Rightarrow> nat \<Rightarrow> (string \<times> string) option \<Rightarrow>
   failure + (string option list \<times> nat)" where
  "parsepath_loop pv psiz token =
     (case token of
        None \<Rightarrow> Inr (pv, psiz)
      | Some (tok, rest) \<Rightarrow>
          if MAXPATHS \<le> psiz then Inl OutOfBounds
          else if MAXPATHS \<le> psiz + 1 then Inr (pv[psiz := Some tok], psiz + 1)
          else parsepath_loop (pv[psiz := Some tok]) (psiz + 1) (strtok rest '':''))"
  by pat_completeness auto
termination
proof (relation "measure (\<lambda>(pv, psiz, token).
         case token of None \<Rightarrow> 0 | Some (tok, rest) \<Rightarrow> Suc (length rest))")
  fix pv :: "string option list" and psiz :: nat
    and token :: "(string \<times> string) option" and x :: "string \<times> string"
    and tok rest :: string
  assume "token = Some x" and "(tok, rest) = x"
  have "(case strtok rest '':'' of None \<Rightarrow> 0 | Some (t, r) \<Rightarrow> Suc (length r))
        < Suc (length rest)"
  proof (cases "strtok rest '':''")
    case None
    then show ?thesis by simp
  next
    case (Some tr)
    obtain t r where tr: "tr = (t, r)" by (cases tr)
    define s1 where "s1 = dropWhile (\<lambda>c. c \<in> set '':'') rest"
    from Some tr have "s1 \<noteq> []"
      and r: "r = drop 1 (dropWhile (\<lambda>c. c \<notin> set '':'') s1)"
      by (auto simp: strtok_def Let_def s1_def split: if_splits)
    then have "length r < length s1"
    proof (cases s1)
      case Nil
      with \<open>s1 \<noteq> []\<close> show ?thesis by simp
    next
      case (Cons a as)
      have "length (dropWhile (\<lambda>c. c \<notin> set '':'') as) \<le> length as"
        by (rule length_dropWhile_le)
      with Cons r show ?thesis by auto
    qed
    also have "length s1 \<le> length rest"
      by (simp add: s1_def length_dropWhile_le)
    finally show ?thesis using Some tr by simp
  qed
  with \<open>token = Some x\<close> \<open>(tok, rest) = x\<close>
  show "((pv[psiz := Some tok], psiz + 1, strtok rest '':''), (pv, psiz, token))
      \<in> measure (\<lambda>(pv, psiz, token).
           case token of None \<Rightarrow> 0 | Some (tok, rest) \<Rightarrow> Suc (length rest))"
    by auto
qed simp

declare parsepath_loop.simps [simp del]

text \<open>
  \<open>parsepath\<close>, with the value of \<open>getenv("PATH")\<close>: \<open>None\<close> when the variable
  is unset, and then \<open>strtok\<close> is called with a null pointer and no saved position.
\<close>

definition parsepath ::
  "string option \<Rightarrow> string option list \<Rightarrow> nat \<Rightarrow> failure + (string option list \<times> nat)" where
  "parsepath p pv psiz =
     (case p of
        None \<Rightarrow> Inl NullPointer
      | Some s \<Rightarrow> parsepath_loop pv psiz (strtok s '':''))"

text \<open>\<open>while (c--) *ptr++ = *av++;\<close> with \<open>ptr\<close> at \<open>pv + i\<close>.\<close>

fun copy_args :: "string option list \<Rightarrow> nat \<Rightarrow> string list \<Rightarrow> string option list" where
  "copy_args pv i [] = pv"
| "copy_args pv i (a # av) = copy_args (pv[i := Some a]) (Suc i) av"

text \<open>
  The part of \<open>main\<close> after option parsing that builds \<open>pv\<close> and \<open>psiz\<close>, from the
  positional arguments \<open>av\<close>, \<open>Pflag\<close> and the value of \<open>PATH\<close>.
\<close>

definition main_paths ::
  "string list \<Rightarrow> bool \<Rightarrow> string option \<Rightarrow> failure + (string option list \<times> nat)" where
  "main_paths av Pflag p =
     (let c = length av;
          pv = replicate MAXPATHS None;
          psiz = 0 + c
      in case (if psiz \<le> 0 \<or> Pflag then parsepath p pv psiz else Inr (pv, psiz)) of
           Inl e \<Rightarrow> Inl e
         | Inr (pv', psiz') \<Rightarrow>
             if MAXPATHS < psiz' then Inl TooManyPaths
             else Inr (copy_args pv' 0 av, psiz'))"

text \<open>The entries \<open>pv[0 .. psiz)\<close>, which \<open>init\<close> scans.\<close>

definition path_list :: "string option list \<times> nat \<Rightarrow> string option list" where
  "path_list r = take (snd r) (fst r)"

text \<open>
  Splitting a string at every occurrence of a separator, keeping empty segments:
  the reading of the path list that the specification describes.
\<close>

fun split_on :: "char \<Rightarrow> string \<Rightarrow> string list" where
  "split_on c [] = [[]]"
| "split_on c (x # xs) =
     (if x = c then [] # split_on c xs
      else (x # hd (split_on c xs)) # tl (split_on c xs))"

section \<open>Building the index\<close>

text \<open>
  What \<open>init\<close> sees of the system: the entries \<open>readdir\<close> yields for a directory
  (\<open>None\<close> when \<open>opendir\<close> fails), whether \<open>access(path, X_OK)\<close> succeeds, the
  \<open>st_size\<close> that \<open>stat\<close> reports (\<open>None\<close> when it fails), and whether \<open>realloc\<close> to a
  given number of records succeeds.
\<close>

record sys =
  opendir :: "string \<Rightarrow> string list option"
  access_x :: "string \<Rightarrow> bool"
  stat_size :: "string \<Rightarrow> nat option"
  realloc_ok :: "nat \<Rightarrow> bool"

record init_st =
  iev :: "exe_t list"
  evcap :: nat
  totsiz :: nat

text \<open>\<open>snprintf(buf, sizeof(buf), "%s/%s", pv[n], d->d_name)\<close> with \<open>char buf[4096]\<close>.\<close>

definition mkbuf :: "string \<Rightarrow> string \<Rightarrow> string" where
  "mkbuf dir d_name = take 4095 (dir @ ''/'' @ d_name)"

text \<open>The \<open>while ((d = readdir(dir)))\<close> loop, over the entries still to be read.\<close>

fun init_dir :: "sys \<Rightarrow> string \<Rightarrow> string list \<Rightarrow> init_st \<Rightarrow> failure + init_st" where
  "init_dir sy dir [] st = Inr st"
| "init_dir sy dir (d_name # ds) st =
     (if strcmp d_name ''.'' = 0 \<or> strcmp d_name ''..'' = 0 then init_dir sy dir ds st
      else let buf = mkbuf dir d_name
           in if \<not> access_x sy buf then init_dir sy dir ds st
              else case stat_size sy buf of
                     None \<Rightarrow> init_dir sy dir ds st
                   | Some st_size \<Rightarrow>
                       if length (iev st) = evcap st \<and> \<not> realloc_ok sy (evcap st + 1024)
                       then Inl NoMemory
                       else
                         let cap = (if length (iev st) = evcap st
                                    then evcap st + 1024 else evcap st);
                             exe = \<lparr>name = snprintf_s 2048 d_name,
                                    path = snprintf_s 2048 buf,
                                    siz = st_size\<rparr>
                         in init_dir sy dir ds
                              \<lparr>iev = iev st @ [exe], evcap = cap,
                               totsiz = (totsiz st + st_size) mod 2 ^ 64\<rparr>)"

text \<open>The \<open>for (n = 0; n < psiz; n++)\<close> loop, over the entries \<open>pv[n .. psiz)\<close>.\<close>

fun init_paths :: "sys \<Rightarrow> string option list \<Rightarrow> init_st \<Rightarrow> failure + init_st" where
  "init_paths sy [] st = Inr st"
| "init_paths sy (p # ps) st =
     (case p of
        None \<Rightarrow> Inl NullPointer
      | Some dir \<Rightarrow>
          (case opendir sy dir of
             None \<Rightarrow> init_paths sy ps st
           | Some ds \<Rightarrow>
               (case init_dir sy dir ds st of
                  Inl e \<Rightarrow> Inl e
                | Inr st' \<Rightarrow> init_paths sy ps st')))"

definition init :: "sys \<Rightarrow> string option list \<Rightarrow> nat \<Rightarrow> failure + init_st" where
  "init sy pv psiz =
     (case init_paths sy (take psiz pv) \<lparr>iev = [], evcap = 0, totsiz = 0\<rparr> of
        Inl e \<Rightarrow> Inl e
      | Inr st \<Rightarrow> if length (iev st) = 0 then Inl NotFoundFiles else Inr st)"

section \<open>Auxiliary notions\<close>

text \<open>The records that \<open>strstr\<close> rejects for a query.\<close>

definition nonmatching :: "string \<Rightarrow> exe_t list \<Rightarrow> exe_t list" where
  "nonmatching inp evs = filter (\<lambda>e. strstr (name e) inp = None) evs"

text \<open>
  The non-empty segments of a path list split at \<open>:\<close>, and the tokens still to
  come after a call of \<open>strtok\<close> returned \<open>tk\<close>.
\<close>

definition tokens :: "string \<Rightarrow> string list" where
  "tokens s = filter (\<lambda>t. t \<noteq> []) (split_on CHR '':'' s)"

fun tok_list :: "(string \<times> string) option \<Rightarrow> string list" where
  "tok_list None = []"
| "tok_list (Some (t, r)) = t # tokens r"

text \<open>
  The record that \<open>init\<close> builds for the entry \<open>d_name\<close> of the directory \<open>dir\<close>:
  the name and the joined path, each cut to 2047 bytes.
\<close>

definition stored :: "string \<Rightarrow> string \<Rightarrow> nat \<Rightarrow> exe_t" where
  "stored dir d_name st_size =
     \<lparr>name = take 2047 d_name, path = take 2047 (dir @ ''/'' @ d_name), siz = st_size\<rparr>"

text \<open>
  An example system: one directory, whose path is 2051 bytes long, holding the
  executable \<open>ls\<close>.
\<close>

definition long_dir :: string where
  "long_dir = CHR ''/'' # replicate 2050 (CHR ''d'')"

definition long_sys :: sys where
  "long_sys =
     \<lparr>opendir = (\<lambda>p. if p = long_dir then Some [''.'', ''..'', ''ls''] else None),
      access_x = (\<lambda>b. True),
      stat_size = (\<lambda>b. Some 100),
      realloc_ok = (\<lambda>n. True)\<rparr>"

section \<open>Properties of the string functions\<close>

lemma strcmp_eq_0_iff [simp]: "strcmp a b = 0 \<longleftrightarrow> a = b"
  by (induction a b rule: strcmp.induct) auto

lemma strstr_None_iff: "strstr h needle = None \<longleftrightarrow> \<not> sublist needle h"
  by (induction h) (auto simp: sublist_Cons_right)

lemma strstr_self: "strstr a a \<noteq> None"
  by (simp add: strstr_None_iff)

section \<open>Properties of the formatter\<close>


lemma bytesfmt_loop_stop:
  "\<not> (1024 \<le> c \<and> n < 6) \<Longrightarrow> bytesfmt_loop c n = (c, n)"
  by (subst bytesfmt_loop.simps) auto

lemma length_dec: "n < 10 ^ k \<Longrightarrow> 0 < k \<Longrightarrow> length (dec n) \<le> k"
proof (induction k arbitrary: n)
  case 0
  then show ?case by simp
next
  case (Suc k)
  show ?case
  proof (cases "n < 10")
    case True
    then show ?thesis by (subst dec.simps) simp
  next
    case False
    with Suc.prems have "0 < k" by (cases k) auto
    moreover from Suc.prems have "n div 10 < 10 ^ k"
      by (simp add: less_mult_imp_div_less mult.commute)
    ultimately have "length (dec (n div 10)) \<le> k" by (rule Suc.IH [rotated])
    with False show ?thesis by (subst dec.simps) simp
  qed
qed

lemma round_half_even_of_nat [simp]: "round_half_even (of_nat m) = m"
  by (simp add: round_half_even_def Let_def)

lemma fmt_2f_of_nat: "fmt_2f (of_nat n) = dec n @ ''.00''"
proof -
  have "(of_nat n :: rat) * 100 = of_nat (n * 100)" by simp
  then have "round_half_even (of_nat n * 100) = n * 100"
    by (simp only: round_half_even_of_nat)
  then show ?thesis
    by (simp add: fmt_2f_def Let_def digit_def)
qed

lemma bytesfmt_small: "n < 1024 \<Longrightarrow> bytesfmt n = dec n @ ''.00 B''"
proof -
  assume n: "n < 1024"
  then have d: "double_of_size_t n = of_nat n"
    by (simp add: double_of_size_t_def)
  from n have l: "bytesfmt_loop (of_nat n) 0 = (of_nat n, 0)"
    by (intro bytesfmt_loop_stop) simp
  from n have "length (dec n) \<le> 4"
    by (intro length_dec) simp_all
  then show ?thesis
    by (simp add: bytesfmt_def d l fmt_2f_of_nat units_def)
qed



















section \<open>Properties of \<open>search\<close>\<close>

lemma count_loop_eq:
  "n \<le> length evs \<Longrightarrow> length (nonmatching inp (take n evs)) \<le> sm \<Longrightarrow>
   count_loop evs inp n sm = sm - length (nonmatching inp (take n evs))"
proof (induction n arbitrary: sm)
  case 0
  then show ?case by (simp add: nonmatching_def)
next
  case (Suc n)
  then have n: "n < length evs" by simp
  have tk: "take (Suc n) evs = take n evs @ [evs ! n]"
    using n by (simp add: take_Suc_conv_app_nth)
  show ?case
  proof (cases "strstr (name (evs ! n)) inp = None")
    case True
    with Suc.prems tk have le: "Suc (length (nonmatching inp (take n evs))) \<le> sm"
      by (simp add: nonmatching_def)
    then have "size_t_dec sm = sm - 1" by (simp add: size_t_dec_def)
    with Suc.IH [of "sm - 1"] n le True tk show ?thesis
      by (simp add: nonmatching_def)
  next
    case False
    with Suc.prems tk have le: "length (nonmatching inp (take n evs)) \<le> sm"
      by (simp add: nonmatching_def)
    with Suc.IH [of sm] n False tk show ?thesis
      by (auto simp: nonmatching_def)
  qed
qed

lemma count_loop_matches:
  "count_loop evs inp (length evs) (length evs) =
   length (filter (\<lambda>e. sublist inp (name e)) evs)"
proof -
  have "length (nonmatching inp evs) \<le> length evs"
    by (simp add: nonmatching_def)
  then have "count_loop evs inp (length evs) (length evs) =
             length evs - length (nonmatching inp evs)"
    using count_loop_eq [of "length evs" evs inp "length evs"] by simp
  moreover have "length evs =
      length (filter (\<lambda>e. sublist inp (name e)) evs) + length (nonmatching inp evs)"
    using sum_length_filter_compl [of "\<lambda>e. sublist inp (name e)" evs]
    by (simp add: nonmatching_def strstr_None_iff)
  ultimately show ?thesis by simp
qed

lemma clear_loop_ev [simp]: "ev (clear_loop cf st) = ev st"
  by (induction cf st rule: clear_loop.induct) (simp add: clear_loop.simps)

lemma clear_loop_lastp [simp]: "lastp (clear_loop cf st) = lastp st"
  by (induction cf st rule: clear_loop.induct) (simp add: clear_loop.simps)


lemma search_body_nomatch:
  assumes "strstr (name (ev st ! n)) inp = None"
  shows "search_body cf inp sm n st = Inr st"
proof -
  from assms have "name (ev st ! n) \<noteq> inp"
    by (auto simp: strstr_None_iff)
  with assms show ?thesis
    by (simp add: search_body_def)
qed

lemma search_body_noexact:
  assumes "name (ev st ! n) \<noteq> inp" and "\<not> s_exact st \<or> lastp st \<noteq> None"
  shows "\<exists>st1. search_body cf inp sm n st = Inr st1 \<and> ev st1 = ev st \<and>
           s_exact st1 = s_exact st \<and>
           lastp st1 = (if strstr (name (ev st ! n)) inp \<noteq> None \<and> \<not> s_exact st
                        then Some n else lastp st) \<and>
           fi st1 = (if strstr (name (ev st ! n)) inp \<noteq> None then fi st + 1 else fi st)"
  using assms by (auto simp: search_body_def Let_def split: option.splits)

lemma search_body_exact:
  assumes "name (ev st ! n) = inp" and "lastp st = Some m"
    and "n < length (ev st)" and "m < length (ev st)"
  shows "\<exists>st1. search_body cf inp sm n st = Inr st1 \<and>
           ev st1 = (ev st)[m := ev st ! n] \<and> s_exact st1 \<and>
           lastp st1 = Some m \<and> fi st1 = fi st + 1"
proof -
  have "name ((ev st)[m := ev st ! n] ! n) = inp"
    using assms by (simp add: nth_list_update)
  then have "strstr (name ((ev st)[m := ev st ! n] ! n)) inp \<noteq> None"
    using strstr_self by simp
  with assms show ?thesis
    by (auto simp: search_body_def Let_def)
qed

lemma search_body_exact_null:
  "name (ev st ! n) = inp \<Longrightarrow> lastp st = None \<Longrightarrow>
   search_body cf inp sm n st = Inl NullPointer"
  by (simp add: search_body_def)

lemma search_loop_stop:
  "\<not> (n < length (ev st) \<and> fi st \<le> nprompt cf) \<Longrightarrow> search_loop cf inp sm n st = Inr st"
  by (subst search_loop.simps) auto

lemma search_loop_step:
  "n < length (ev st) \<and> fi st \<le> nprompt cf \<Longrightarrow> search_body cf inp sm n st = Inr st1 \<Longrightarrow>
   search_loop cf inp sm n st = search_loop cf inp sm (Suc n) st1"
  by (subst search_loop.simps) simp

lemma search_loop_fail:
  "n < length (ev st) \<and> fi st \<le> nprompt cf \<Longrightarrow> search_body cf inp sm n st = Inl e \<Longrightarrow>
   search_loop cf inp sm n st = Inl e"
  by (subst search_loop.simps) simp

lemma search_loop_no_match:
  "(\<forall>k. n \<le> k \<and> k < length (ev st) \<longrightarrow> strstr (name (ev st ! k)) inp = None) \<Longrightarrow>
   search_loop cf inp sm n st = Inr st"
proof (induction cf inp sm n st rule: search_loop.induct)
  case (1 cf inp sm n st)
  show ?case
  proof (cases "n < length (ev st) \<and> fi st \<le> nprompt cf")
    case True
    have b: "search_body cf inp sm n st = Inr st"
      using "1.prems" True by (simp add: search_body_nomatch)
    have "search_loop cf inp sm (Suc n) st = Inr st"
      using "1.IH" [OF True b] "1.prems" by simp
    with True b show ?thesis
      by (simp add: search_loop_step)
  next
    case False
    then show ?thesis
      by (rule search_loop_stop)
  qed
qed

lemma search_loop_exact_phase:
  "s_exact st \<Longrightarrow> lastp st = Some m \<Longrightarrow> m < length (ev st) \<Longrightarrow>
   \<exists>st' j. search_loop cf inp sm n st = Inr st' \<and> lastp st' = Some m \<and> s_exact st' \<and>
          j < length (ev st) \<and> ev st' = (ev st)[m := ev st ! j] \<and>
          (j = m \<or> (n \<le> j \<and> name (ev st ! j) = inp))"
proof (induction cf inp sm n st rule: search_loop.induct)
  case (1 cf inp sm n st)
  show ?case
  proof (cases "n < length (ev st) \<and> fi st \<le> nprompt cf")
    case False
    then have "search_loop cf inp sm n st = Inr st"
      by (rule search_loop_stop)
    with "1.prems" show ?thesis
      by (intro exI [of _ st] exI [of _ m]) simp
  next
    case True
    show ?thesis
    proof (cases "name (ev st ! n) = inp")
      case exact: True
      from search_body_exact [OF exact "1.prems"(2) _ "1.prems"(3), of cf sm] True
      obtain st1 where b: "search_body cf inp sm n st = Inr st1"
        and e1: "ev st1 = (ev st)[m := ev st ! n]" and s1: "s_exact st1"
        and l1: "lastp st1 = Some m"
        by auto
      from e1 "1.prems" have m1: "m < length (ev st1)" by simp
      from "1.IH" [OF True b s1 l1 m1]
      obtain st' j where r: "search_loop cf inp sm (Suc n) st1 = Inr st'"
        and l': "lastp st' = Some m" and s': "s_exact st'"
        and j: "j < length (ev st1)" and e': "ev st' = (ev st1)[m := ev st1 ! j]"
        and jc: "j = m \<or> (Suc n \<le> j \<and> name (ev st1 ! j) = inp)"
        by blast
      have loop: "search_loop cf inp sm n st = Inr st'"
        using True b r by (simp add: search_loop_step)
      show ?thesis
      proof (cases "j = m")
        case True
        with e' e1 "1.prems" have "ev st' = (ev st)[m := ev st ! n]" by simp
        with loop l' s' exact \<open>n < length (ev st) \<and> fi st \<le> nprompt cf\<close> show ?thesis
          by (intro exI [of _ st'] exI [of _ n]) simp
      next
        case False
        with e' e1 jc j have "ev st' = (ev st)[m := ev st ! j]"
          and "Suc n \<le> j" and "name (ev st ! j) = inp" and "j < length (ev st)"
          by simp_all
        with loop l' s' show ?thesis
          by (intro exI [of _ st'] exI [of _ j]) simp
      qed
    next
      case noexact: False
      from search_body_noexact [OF noexact, of cf sm] "1.prems"
      obtain st1 where b: "search_body cf inp sm n st = Inr st1"
        and e1: "ev st1 = ev st" and s1: "s_exact st1" and l1: "lastp st1 = Some m"
        by auto
      from e1 "1.prems" have m1: "m < length (ev st1)" by simp
      from "1.IH" [OF True b s1 l1 m1]
      obtain st' j where r: "search_loop cf inp sm (Suc n) st1 = Inr st'"
        and l': "lastp st' = Some m" and s': "s_exact st'"
        and j: "j < length (ev st1)" and e': "ev st' = (ev st1)[m := ev st1 ! j]"
        and jc: "j = m \<or> (Suc n \<le> j \<and> name (ev st1 ! j) = inp)"
        by blast
      have loop: "search_loop cf inp sm n st = Inr st'"
        using True b r by (simp add: search_loop_step)
      from jc have "j = m \<or> (n \<le> j \<and> name (ev st1 ! j) = inp)" by auto
      with loop l' s' j e' e1 show ?thesis
        by (intro exI [of _ st'] exI [of _ j]) simp
    qed
  qed
qed


lemma search_loop_noexact_phase:
  "\<not> s_exact st \<Longrightarrow>
   (\<forall>k. n \<le> k \<and> k < length (ev st) \<longrightarrow> name (ev st ! k) \<noteq> inp) \<Longrightarrow>
   \<exists>st'. search_loop cf inp sm n st = Inr st' \<and> ev st' = ev st \<and>
     lastp st' =
       (let ms = take (nprompt cf + 1 - fi st)
                   (filter (\<lambda>i. strstr (name (ev st ! i)) inp \<noteq> None) [n..<length (ev st)])
        in if ms = [] then lastp st else Some (last ms))"
proof (induction cf inp sm n st rule: search_loop.induct)
  case (1 cf inp sm n st)
  let ?P = "\<lambda>i. strstr (name (ev st ! i)) inp \<noteq> None"
  show ?case
  proof (cases "n < length (ev st) \<and> fi st \<le> nprompt cf")
    case False
    then have "take (nprompt cf + 1 - fi st) (filter ?P [n..<length (ev st)]) = []"
      by auto
    with False show ?thesis
      by (simp add: search_loop_stop)
  next
    case True
    from "1.prems" True have ne: "name (ev st ! n) \<noteq> inp" by simp
    from search_body_noexact [OF ne, of cf sm] "1.prems"(1)
    obtain st1 where b: "search_body cf inp sm n st = Inr st1"
      and e1: "ev st1 = ev st" and s1: "\<not> s_exact st1"
      and l1: "lastp st1 = (if ?P n then Some n else lastp st)"
      and f1: "fi st1 = (if ?P n then fi st + 1 else fi st)"
      by auto
    from "1.prems"(2) e1
    have p2: "\<forall>k. Suc n \<le> k \<and> k < length (ev st1) \<longrightarrow> name (ev st1 ! k) \<noteq> inp"
      by simp
    from "1.IH" [OF True b s1 p2] e1
    obtain st' where r: "search_loop cf inp sm (Suc n) st1 = Inr st'"
      and e': "ev st' = ev st"
      and l': "lastp st' =
         (let ms = take (nprompt cf + 1 - fi st1) (filter ?P [Suc n..<length (ev st)])
          in if ms = [] then lastp st1 else Some (last ms))"
      by auto
    have loop: "search_loop cf inp sm n st = Inr st'"
      using True b r by (simp add: search_loop_step)
    from True have upt: "[n..<length (ev st)] = n # [Suc n..<length (ev st)]"
      by (simp add: upt_conv_Cons)
    show ?thesis
    proof (cases "?P n")
      case False
      with l' l1 f1 upt loop e' show ?thesis by simp
    next
      case match: True
      from True have "nprompt cf + 1 - fi st = Suc (nprompt cf + 1 - (fi st + 1))"
        by (auto simp: Suc_diff_le)
      with match upt have "take (nprompt cf + 1 - fi st) (filter ?P [n..<length (ev st)]) =
          n # take (nprompt cf + 1 - (fi st + 1)) (filter ?P [Suc n..<length (ev st)])"
        by simp
      with l' l1 f1 match loop e' show ?thesis by (simp add: Let_def)
    qed
  qed
qed


lemma filter_nth_take:
  "n \<le> length xs \<Longrightarrow> length (filter (\<lambda>k. P (xs ! k)) [0..<n]) = length (filter P (take n xs))"
proof (induction n)
  case 0
  then show ?case by simp
next
  case (Suc n)
  then show ?case by (simp add: take_Suc_conv_app_nth)
qed

lemma search_loop_first_exact:
  "\<not> s_exact st \<Longrightarrow> n \<le> n1 \<Longrightarrow> n1 < length (ev st) \<Longrightarrow> name (ev st ! n1) = inp \<Longrightarrow>
   (\<forall>k. n \<le> k \<and> k < n1 \<longrightarrow> name (ev st ! k) \<noteq> inp) \<Longrightarrow>
   fi st + length (filter (\<lambda>k. strstr (name (ev st ! k)) inp \<noteq> None) [n..<n1]) \<le> nprompt cf \<Longrightarrow>
   (\<exists>m. lastp st = Some m \<and> m < length (ev st)) \<or>
   (\<exists>k. n \<le> k \<and> k < n1 \<and> strstr (name (ev st ! k)) inp \<noteq> None) \<Longrightarrow>
   \<exists>st' l j. search_loop cf inp sm n st = Inr st' \<and> lastp st' = Some l \<and>
      l < length (ev st) \<and> n1 \<le> j \<and> j < length (ev st) \<and> name (ev st ! j) = inp \<and>
      ev st' ! l = ev st ! j"
proof (induction cf inp sm n st rule: search_loop.induct)
  case (1 cf inp sm n st)
  let ?P = "\<lambda>k. strstr (name (ev st ! k)) inp \<noteq> None"
  from "1.prems" have cond: "n < length (ev st) \<and> fi st \<le> nprompt cf"
    by simp
  show ?case
  proof (cases "n = n1")
    case True
    with "1.prems" obtain m where l: "lastp st = Some m" and m: "m < length (ev st)"
      by auto
    from True "1.prems" have exact: "name (ev st ! n) = inp" and n: "n < length (ev st)"
      by simp_all
    from True have here: "n1 \<le> n" by simp
    from search_body_exact [OF exact l n m, of cf sm]
    obtain st1 where b: "search_body cf inp sm n st = Inr st1"
      and e1: "ev st1 = (ev st)[m := ev st ! n]" and s1: "s_exact st1"
      and l1: "lastp st1 = Some m"
      by auto
    from e1 m have m1: "m < length (ev st1)" by simp
    from search_loop_exact_phase [OF s1 l1 m1, of cf inp sm "Suc n"]
    obtain st' j where r: "search_loop cf inp sm (Suc n) st1 = Inr st'"
      and l': "lastp st' = Some m"
      and j: "j < length (ev st1)" and e': "ev st' = (ev st1)[m := ev st1 ! j]"
      and jc: "j = m \<or> (Suc n \<le> j \<and> name (ev st1 ! j) = inp)"
      by blast
    have loop: "search_loop cf inp sm n st = Inr st'"
      using cond b r by (simp add: search_loop_step)
    from e' m1 have sel: "ev st' ! m = ev st1 ! j" by simp
    show ?thesis
    proof (cases "j = m")
      case True
      with sel e1 m have "ev st' ! m = ev st ! n" by simp
      with loop l' m n exact here show ?thesis by blast
    next
      case False
      with sel e1 jc j here have "ev st' ! m = ev st ! j" and "name (ev st ! j) = inp"
        and "j < length (ev st)" and "n1 \<le> j"
        by simp_all
      with loop l' m show ?thesis by blast
    qed
  next
    case False
    with "1.prems" have lt: "n < n1" and ne: "name (ev st ! n) \<noteq> inp" by simp_all
    from search_body_noexact [OF ne, of cf sm] "1.prems"(1)
    obtain st1 where b: "search_body cf inp sm n st = Inr st1"
      and e1: "ev st1 = ev st" and s1: "\<not> s_exact st1"
      and l1: "lastp st1 = (if ?P n then Some n else lastp st)"
      and f1: "fi st1 = (if ?P n then fi st + 1 else fi st)"
      by auto
    from lt have upt: "[n..<n1] = n # [Suc n..<n1]"
      by (simp add: upt_conv_Cons)
    have a2: "Suc n \<le> n1" using lt by simp
    have a3: "n1 < length (ev st1)" using "1.prems" e1 by simp
    have a4: "name (ev st1 ! n1) = inp" using "1.prems" e1 by simp
    have a5: "\<forall>k. Suc n \<le> k \<and> k < n1 \<longrightarrow> name (ev st1 ! k) \<noteq> inp"
      using "1.prems" e1 by simp
    have a6: "fi st1 + length (filter (\<lambda>k. strstr (name (ev st1 ! k)) inp \<noteq> None) [Suc n..<n1])
        \<le> nprompt cf"
      using "1.prems"(6) upt e1 f1 by (simp split: if_splits)
    have a7: "(\<exists>m. lastp st1 = Some m \<and> m < length (ev st1)) \<or>
        (\<exists>k. Suc n \<le> k \<and> k < n1 \<and> strstr (name (ev st1 ! k)) inp \<noteq> None)"
    proof (cases "?P n")
      case True
      with l1 e1 cond show ?thesis by simp
    next
      case False
      from "1.prems"(7) show ?thesis
      proof
        assume "\<exists>m. lastp st = Some m \<and> m < length (ev st)"
        with False l1 e1 show ?thesis by simp
      next
        assume "\<exists>k. n \<le> k \<and> k < n1 \<and> ?P k"
        then obtain k where k: "n \<le> k" "k < n1" "?P k" by blast
        with False have "k \<noteq> n" by auto
        with k have "Suc n \<le> k" by simp
        with k e1 show ?thesis by auto
      qed
    qed
    from "1.IH" [OF cond b s1 a2 a3 a4 a5 a6 a7] e1
    obtain st' l j where r: "search_loop cf inp sm (Suc n) st1 = Inr st'"
      and "lastp st' = Some l" "l < length (ev st)" "n1 \<le> j" "j < length (ev st)"
      "name (ev st ! j) = inp" "ev st' ! l = ev st ! j"
      by auto
    moreover have "search_loop cf inp sm n st = Inr st'"
      using cond b r by (simp add: search_loop_step)
    ultimately show ?thesis by blast
  qed
qed


lemma search_loop_null_fault:
  "lastp st = None \<Longrightarrow> n \<le> n1 \<Longrightarrow> n1 < length (ev st) \<Longrightarrow> name (ev st ! n1) = inp \<Longrightarrow>
   (\<forall>k. n \<le> k \<and> k < n1 \<longrightarrow> strstr (name (ev st ! k)) inp = None) \<Longrightarrow>
   fi st \<le> nprompt cf \<Longrightarrow>
   search_loop cf inp sm n st = Inl NullPointer"
proof (induction cf inp sm n st rule: search_loop.induct)
  case (1 cf inp sm n st)
  from "1.prems" have cond: "n < length (ev st) \<and> fi st \<le> nprompt cf"
    by simp
  show ?case
  proof (cases "n = n1")
    case True
    with "1.prems" have "search_body cf inp sm n st = Inl NullPointer"
      by (simp add: search_body_exact_null)
    with cond show ?thesis by (rule search_loop_fail)
  next
    case False
    with "1.prems" have "strstr (name (ev st ! n)) inp = None" and "Suc n \<le> n1"
      by simp_all
    then have b: "search_body cf inp sm n st = Inr st"
      by (simp add: search_body_nomatch)
    from "1.IH" [OF cond b "1.prems"(1) \<open>Suc n \<le> n1\<close> "1.prems"(3,4) _ "1.prems"(6)]
      "1.prems"(5)
    have "search_loop cf inp sm (Suc n) st = Inl NullPointer" by simp
    with cond b show ?thesis by (simp add: search_loop_step)
  qed
qed

lemma search_faults_on_null_selection:
  assumes "n < length evs" and "name (evs ! n) = inp"
    and "\<forall>k<n. \<not> sublist inp (name (evs ! k))" and "0 < nprompt cf"
  shows "search cf yx inp evs None = Inl NullPointer"
proof -
  let ?st0 = "\<lparr>ev = evs, lastp = None, s_exact = False, fi = 1, scr = []\<rparr>"
  have "search_loop cf inp sm 0 ?st0 = Inl NullPointer" for sm
    using assms by (intro search_loop_null_fault [of _ _ n]) (simp_all add: strstr_None_iff)
  then show ?thesis
    by (simp add: search_def Let_def)
qed

lemma match_indices_strstr:
  "match_indices inp evs = filter (\<lambda>i. strstr (name (evs ! i)) inp \<noteq> None) [0..<length evs]"
  by (simp add: match_indices_def strstr_None_iff)

lemma outcome_Inr:
  "outcome r = Inr (evs, l, sm) \<Longrightarrow> \<exists>st. r = Inr (st, sm) \<and> ev st = evs \<and> lastp st = l"
  by (cases r) (auto simp: outcome_def)

lemmas search_eval =
  outcome_def search_def Let_def search_loop.simps search_body_def clear_loop.simps
  size_t_dec_def bytesfmt_small dec.simps digit_def

section \<open>Properties of \<open>parsepath\<close>\<close>

lemma split_on_not_Nil [simp]: "split_on c xs \<noteq> []"
  by (induction xs) auto

lemma hd_split_on: "hd (split_on c xs) = takeWhile (\<lambda>x. x \<noteq> c) xs"
  by (induction xs) auto

lemma tl_split_on:
  "tl (split_on c xs) =
     (case dropWhile (\<lambda>x. x \<noteq> c) xs of [] \<Rightarrow> [] | y # ys \<Rightarrow> split_on c ys)"
  by (induction xs) auto

lemma tokens_Nil [simp]: "tokens [] = []"
  by (simp add: tokens_def)

lemma tokens_colon [simp]: "tokens (CHR '':'' # xs) = tokens xs"
  by (simp add: tokens_def)

lemma tokens_other:
  "x \<noteq> CHR '':'' \<Longrightarrow>
   tokens (x # xs) = (x # takeWhile (\<lambda>c. c \<noteq> CHR '':'') xs) #
                     tokens (drop 1 (dropWhile (\<lambda>c. c \<noteq> CHR '':'') xs))"
  by (cases "dropWhile (\<lambda>c. c \<noteq> CHR '':'') xs")
     (simp_all add: tokens_def hd_split_on tl_split_on del: dropWhile_eq_Nil_conv)

lemma strtok_colon [simp]: "strtok (CHR '':'' # xs) '':'' = strtok xs '':''"
  by (simp add: strtok_def)

lemma strtok_other:
  "x \<noteq> CHR '':'' \<Longrightarrow>
   strtok (x # xs) '':'' = Some (x # takeWhile (\<lambda>c. c \<noteq> CHR '':'') xs,
                                drop 1 (dropWhile (\<lambda>c. c \<noteq> CHR '':'') xs))"
  by (simp add: strtok_def)

lemma tok_list_strtok: "tok_list (strtok s '':'') = tokens s"
proof (induction s)
  case Nil
  then show ?case by (simp add: strtok_def)
next
  case (Cons x xs)
  then show ?case
    by (cases "x = CHR '':''") (simp_all add: strtok_other tokens_other)
qed

lemma parsepath_loop_tokens:
  "length pv = MAXPATHS \<Longrightarrow> psiz < MAXPATHS \<Longrightarrow>
   parsepath_loop pv psiz tk =
     Inr (take psiz pv @ map Some (take (MAXPATHS - psiz) (tok_list tk)) @
            drop (psiz + length (take (MAXPATHS - psiz) (tok_list tk))) pv,
          psiz + length (take (MAXPATHS - psiz) (tok_list tk)))"
proof (induction pv psiz tk rule: parsepath_loop.induct)
  case (1 pv psiz token)
  show ?case
  proof (cases token)
    case None
    then show ?thesis
      by (subst parsepath_loop.simps) simp
  next
    case (Some tr)
    obtain tok rest where tr: "tr = (tok, rest)" by (cases tr)
    from "1.prems" have sub: "MAXPATHS - psiz = Suc (MAXPATHS - (psiz + 1))"
      by simp
    have upd: "take (Suc psiz) (pv[psiz := Some tok]) = take psiz pv @ [Some tok]"
      using "1.prems" by (simp add: take_Suc_conv_app_nth)
    show ?thesis
    proof (cases "MAXPATHS \<le> psiz + 1")
      case True
      with "1.prems" have eq: "MAXPATHS = psiz + 1" by simp
      then have "MAXPATHS - psiz = 1" by simp
      moreover have "pv[psiz := Some tok] = take psiz pv @ [Some tok] @ drop (psiz + 1) pv"
        using "1.prems" by (simp add: upd_conv_take_nth_drop)
      ultimately show ?thesis
        using Some tr True "1.prems"
        by (subst parsepath_loop.simps) simp
    next
      case False
      then have lt: "psiz + 1 < MAXPATHS" by simp
      have len: "length (pv[psiz := Some tok]) = MAXPATHS"
        using "1.prems" by simp
      let ?ts = "take (MAXPATHS - (psiz + 1)) (tokens rest)"
      have "parsepath_loop pv psiz token =
            parsepath_loop (pv[psiz := Some tok]) (psiz + 1) (strtok rest '':'')"
        using Some tr False "1.prems"
        by (subst parsepath_loop.simps) simp
      also have "\<dots> = Inr (take (psiz + 1) (pv[psiz := Some tok]) @ map Some ?ts @
            drop (psiz + 1 + length ?ts) (pv[psiz := Some tok]),
          psiz + 1 + length ?ts)"
        using "1.IH" [OF Some tr [symmetric] _ False len lt] "1.prems"
        by (simp add: tok_list_strtok)
      also have "take (psiz + 1) (pv[psiz := Some tok]) = take psiz pv @ [Some tok]"
        using upd by simp
      also have "drop (psiz + 1 + length ?ts) (pv[psiz := Some tok]) =
                 drop (psiz + 1 + length ?ts) pv"
        by (simp add: drop_update_cancel)
      finally show ?thesis
        using Some tr sub by simp
    qed
  qed
qed

lemma parsepath_tokens:
  assumes "length pv = MAXPATHS" and "psiz < MAXPATHS"
  shows "parsepath (Some p) pv psiz =
     Inr (take psiz pv @ map Some (take (MAXPATHS - psiz) (tokens p)) @
            drop (psiz + length (take (MAXPATHS - psiz) (tokens p))) pv,
          psiz + length (take (MAXPATHS - psiz) (tokens p)))"
  using parsepath_loop_tokens [OF assms, of "strtok p '':''"]
  by (simp add: parsepath_def tok_list_strtok)

lemma path_list_parsepath:
  assumes "length pv = MAXPATHS" and "psiz < MAXPATHS"
  shows "map_sum id path_list (parsepath (Some p) pv psiz) =
     Inr (take psiz pv @ map Some (take (MAXPATHS - psiz) (tokens p)))"
  using assms by (simp add: parsepath_tokens path_list_def)

lemma main_paths_environment_never_fatal:
  assumes "length av < MAXPATHS"
  shows "\<exists>r. main_paths av Pflag (Some p) = Inr r \<and> snd r \<le> MAXPATHS"
proof -
  let ?pv = "replicate MAXPATHS None :: string option list"
  have len: "length ?pv = MAXPATHS" by simp
  from assms have "length av + length (take (MAXPATHS - length av) (tokens p)) \<le> MAXPATHS"
    by simp
  with assms show ?thesis
    by (simp add: main_paths_def Let_def parsepath_tokens [OF len assms])
qed

lemma parsepath_full_array_out_of_bounds:
  assumes "MAXPATHS \<le> psiz" and "tokens p \<noteq> []"
  shows "parsepath (Some p) pv psiz = Inl OutOfBounds"
proof -
  from assms(2) have "tok_list (strtok p '':'') \<noteq> []"
    by (simp add: tok_list_strtok)
  then obtain tok rest where "strtok p '':'' = Some (tok, rest)"
    by (cases "strtok p '':''") auto
  with assms(1) show ?thesis
    by (simp add: parsepath_def parsepath_loop.simps [of pv psiz])
qed

lemma tokens_replicate: "tokens (concat (replicate n ''/d:'')) = replicate n ''/d''"
  by (induction n) (simp_all add: tokens_other)

section \<open>Properties of \<open>init\<close>\<close>

lemma snprintf_mkbuf: "snprintf_s 2048 (mkbuf dir d) = take 2047 (dir @ ''/'' @ d)"
  by (simp add: snprintf_s_def mkbuf_def del: take_append)

lemma stored_eq:
  "\<lparr>name = snprintf_s 2048 d, path = snprintf_s 2048 (mkbuf dir d), siz = sz\<rparr> = stored dir d sz"
  by (simp add: stored_def snprintf_mkbuf) (simp add: snprintf_s_def)

lemma init_dir_skip:
  "d = ''.'' \<or> d = ''..'' \<or> \<not> access_x sy (mkbuf dir d) \<or> stat_size sy (mkbuf dir d) = None \<Longrightarrow>
   init_dir sy dir (d # ds) st = init_dir sy dir ds st"
  by (auto simp: Let_def)

lemma init_dir_add:
  "d \<noteq> ''.'' \<Longrightarrow> d \<noteq> ''..'' \<Longrightarrow> access_x sy (mkbuf dir d) \<Longrightarrow>
   stat_size sy (mkbuf dir d) = Some sz \<Longrightarrow>
   init_dir sy dir (d # ds) st =
     (if length (iev st) = evcap st \<and> \<not> realloc_ok sy (evcap st + 1024) then Inl NoMemory
      else init_dir sy dir ds
             \<lparr>iev = iev st @ [\<lparr>name = snprintf_s 2048 d,
                               path = snprintf_s 2048 (mkbuf dir d), siz = sz\<rparr>],
              evcap = (if length (iev st) = evcap st then evcap st + 1024 else evcap st),
              totsiz = (totsiz st + sz) mod 2 ^ 64\<rparr>)"
  by (simp add: Let_def)

lemma init_dir_bounded:
  "init_dir sy dir ds st = Inr st' \<Longrightarrow>
   \<forall>e\<in>set (iev st). length (name e) \<le> 2047 \<and> length (path e) \<le> 2047 \<Longrightarrow>
   \<forall>e\<in>set (iev st'). length (name e) \<le> 2047 \<and> length (path e) \<le> 2047"
proof (induction ds arbitrary: st)
  case Nil
  then show ?case by simp
next
  case (Cons d ds)
  let ?buf = "mkbuf dir d"
  show ?case
  proof (cases "d = ''.'' \<or> d = ''..'' \<or> \<not> access_x sy ?buf \<or> stat_size sy ?buf = None")
    case True
    with Cons.prems have "init_dir sy dir ds st = Inr st'"
      by (simp only: init_dir_skip)
    from Cons.IH [OF this Cons.prems(2)] show ?thesis .
  next
    case False
    then obtain sz where sz: "stat_size sy ?buf = Some sz" by auto
    let ?st1 = "\<lparr>iev = iev st @ [\<lparr>name = snprintf_s 2048 d, path = snprintf_s 2048 ?buf, siz = sz\<rparr>],
        evcap = (if length (iev st) = evcap st then evcap st + 1024 else evcap st),
        totsiz = (totsiz st + sz) mod 2 ^ 64\<rparr>"
    from False sz Cons.prems(1) have r: "init_dir sy dir ds ?st1 = Inr st'"
      by (simp add: init_dir_add del: init_dir.simps split: if_splits)
    have "\<forall>e\<in>set (iev ?st1). length (name e) \<le> 2047 \<and> length (path e) \<le> 2047"
      using Cons.prems(2) by (auto simp: snprintf_s_def)
    from Cons.IH [OF r this] show ?thesis .
  qed
qed

lemma init_dir_mono:
  "init_dir sy dir ds st = Inr st' \<Longrightarrow> set (iev st) \<subseteq> set (iev st')"
proof (induction ds arbitrary: st)
  case Nil
  then show ?case by simp
next
  case (Cons d ds)
  let ?buf = "mkbuf dir d"
  show ?case
  proof (cases "d = ''.'' \<or> d = ''..'' \<or> \<not> access_x sy ?buf \<or> stat_size sy ?buf = None")
    case True
    with Cons.prems have "init_dir sy dir ds st = Inr st'"
      by (simp only: init_dir_skip)
    from Cons.IH [OF this] show ?thesis .
  next
    case False
    then obtain sz where sz: "stat_size sy ?buf = Some sz" by auto
    let ?st1 = "\<lparr>iev = iev st @ [\<lparr>name = snprintf_s 2048 d, path = snprintf_s 2048 ?buf, siz = sz\<rparr>],
        evcap = (if length (iev st) = evcap st then evcap st + 1024 else evcap st),
        totsiz = (totsiz st + sz) mod 2 ^ 64\<rparr>"
    from False sz Cons.prems(1) have r: "init_dir sy dir ds ?st1 = Inr st'"
      by (simp add: init_dir_add del: init_dir.simps split: if_splits)
    from Cons.IH [OF r] show ?thesis by auto
  qed
qed

lemma init_dir_stored:
  "init_dir sy dir ds st = Inr st' \<Longrightarrow> d \<in> set ds \<Longrightarrow> d \<noteq> ''.'' \<Longrightarrow> d \<noteq> ''..'' \<Longrightarrow>
   access_x sy (mkbuf dir d) \<Longrightarrow> stat_size sy (mkbuf dir d) = Some sz \<Longrightarrow>
   stored dir d sz \<in> set (iev st')"
proof (induction ds arbitrary: st)
  case Nil
  then show ?case by simp
next
  case (Cons d' ds)
  let ?buf = "mkbuf dir d'"
  show ?case
  proof (cases "d' = ''.'' \<or> d' = ''..'' \<or> \<not> access_x sy ?buf \<or> stat_size sy ?buf = None")
    case True
    with Cons.prems have r: "init_dir sy dir ds st = Inr st'" and "d \<noteq> d'"
      by (auto simp only: init_dir_skip)
    with Cons.prems have "d \<in> set ds" by simp
    from Cons.IH [OF r this Cons.prems(3-6)] show ?thesis .
  next
    case False
    then obtain sz' where sz': "stat_size sy ?buf = Some sz'" by auto
    let ?st1 = "\<lparr>iev = iev st @ [\<lparr>name = snprintf_s 2048 d', path = snprintf_s 2048 ?buf, siz = sz'\<rparr>],
        evcap = (if length (iev st) = evcap st then evcap st + 1024 else evcap st),
        totsiz = (totsiz st + sz') mod 2 ^ 64\<rparr>"
    from False sz' Cons.prems(1) have r: "init_dir sy dir ds ?st1 = Inr st'"
      by (simp add: init_dir_add del: init_dir.simps split: if_splits)
    show ?thesis
    proof (cases "d = d'")
      case True
      with sz' Cons.prems(6) have "stored dir d sz \<in> set (iev ?st1)"
        by (simp add: stored_eq)
      with init_dir_mono [OF r] show ?thesis by blast
    next
      case False
      with Cons.prems have "d \<in> set ds" by simp
      from Cons.IH [OF r this Cons.prems(3-6)] show ?thesis .
    qed
  qed
qed

lemma init_paths_bounded:
  "init_paths sy ps st = Inr st' \<Longrightarrow>
   \<forall>e\<in>set (iev st). length (name e) \<le> 2047 \<and> length (path e) \<le> 2047 \<Longrightarrow>
   \<forall>e\<in>set (iev st'). length (name e) \<le> 2047 \<and> length (path e) \<le> 2047"
proof (induction ps arbitrary: st)
  case Nil
  then show ?case by simp
next
  case (Cons p ps)
  from Cons.prems(1) obtain dir where p: "p = Some dir"
    by (cases p) auto
  show ?case
  proof (cases "opendir sy dir")
    case None
    with p Cons.prems(1) have "init_paths sy ps st = Inr st'" by simp
    from Cons.IH [OF this Cons.prems(2)] show ?thesis .
  next
    case (Some ds)
    with p Cons.prems(1) obtain st1 where d: "init_dir sy dir ds st = Inr st1"
      and r: "init_paths sy ps st1 = Inr st'"
      by (auto split: sum.splits)
    from Cons.IH [OF r init_dir_bounded [OF d Cons.prems(2)]] show ?thesis .
  qed
qed

lemma init_paths_mono:
  "init_paths sy ps st = Inr st' \<Longrightarrow> set (iev st) \<subseteq> set (iev st')"
proof (induction ps arbitrary: st)
  case Nil
  then show ?case by simp
next
  case (Cons p ps)
  from Cons.prems(1) obtain dir where p: "p = Some dir"
    by (cases p) auto
  show ?case
  proof (cases "opendir sy dir")
    case None
    with p Cons.prems(1) have "init_paths sy ps st = Inr st'" by simp
    from Cons.IH [OF this] show ?thesis .
  next
    case (Some ds)
    with p Cons.prems(1) obtain st1 where d: "init_dir sy dir ds st = Inr st1"
      and r: "init_paths sy ps st1 = Inr st'"
      by (auto split: sum.splits)
    from Cons.IH [OF r] init_dir_mono [OF d] show ?thesis by blast
  qed
qed

lemma init_paths_stored:
  "init_paths sy ps st = Inr st' \<Longrightarrow> Some dir \<in> set ps \<Longrightarrow> opendir sy dir = Some ds \<Longrightarrow>
   d \<in> set ds \<Longrightarrow> d \<noteq> ''.'' \<Longrightarrow> d \<noteq> ''..'' \<Longrightarrow>
   access_x sy (mkbuf dir d) \<Longrightarrow> stat_size sy (mkbuf dir d) = Some sz \<Longrightarrow>
   stored dir d sz \<in> set (iev st')"
proof (induction ps arbitrary: st)
  case Nil
  then show ?case by simp
next
  case (Cons p ps)
  from Cons.prems(1) obtain dir' where p: "p = Some dir'"
    by (cases p) auto
  show ?case
  proof (cases "dir' = dir")
    case True
    with p Cons.prems obtain st1 where d: "init_dir sy dir ds st = Inr st1"
      and r: "init_paths sy ps st1 = Inr st'"
      by (auto split: sum.splits)
    from init_dir_stored [OF d Cons.prems(4-8)] init_paths_mono [OF r]
    show ?thesis by blast
  next
    case False
    with p Cons.prems(2) have in_ps: "Some dir \<in> set ps" by simp
    show ?thesis
    proof (cases "opendir sy dir'")
      case None
      with p Cons.prems(1) have "init_paths sy ps st = Inr st'" by simp
      from Cons.IH [OF this in_ps Cons.prems(3-8)] show ?thesis .
    next
      case (Some ds')
      with p Cons.prems(1) obtain st1 where r: "init_paths sy ps st1 = Inr st'"
        by (auto split: sum.splits)
      from Cons.IH [OF r in_ps Cons.prems(3-8)] show ?thesis .
    qed
  qed
qed

lemma long_init:
  "init long_sys (Some long_dir # replicate 511 None) 1 =
     Inr \<lparr>iev = [\<lparr>name = ''ls'', path = CHR ''/'' # replicate 2046 (CHR ''d''), siz = 100\<rparr>],
          evcap = 1024, totsiz = 100\<rparr>"
  by (simp add: init_def long_sys_def long_dir_def mkbuf_def snprintf_s_def)

section \<open>The claims about the filter and selection engine\<close>

text \<open>
  C1, as stated, fails: the traversal stops once \<open>nprompt\<close> matches have been shown,
  so an exact match behind them is never reached. With \<open>-n 1\<close> and the query
  \<open>foo\<close>, the selection stays on \<open>foobar\<close>.
\<close>

theorem search_exact_match_counterexample:
  "outcome (search \<lparr>mode = MODESHORT, nprompt = 1, Sflag = False\<rparr> (2, 5) ''foo''
      [\<lparr>name = ''foobar'', path = ''/bin/foobar'', siz = 200\<rparr>,
       \<lparr>name = ''foobaz'', path = ''/bin/foobaz'', siz = 300\<rparr>,
       \<lparr>name = ''foo'', path = ''/bin/foo'', siz = 100\<rparr>] None) =
   Inr ([\<lparr>name = ''foobar'', path = ''/bin/foobar'', siz = 200\<rparr>,
         \<lparr>name = ''foobaz'', path = ''/bin/foobaz'', siz = 300\<rparr>,
         \<lparr>name = ''foo'', path = ''/bin/foo'', siz = 100\<rparr>], Some 0, 3)"
  by (simp add: search_eval)

text \<open>
  C1, amended: if the first record named exactly like the query has fewer than
  \<open>nprompt\<close> substring matches before it, and \<open>last\<close> is set when it is reached
  (it pointed into the array before the call, or a substring match precedes), then
  \<open>search\<close> returns normally and the selected slot holds the name, path and size
  of that record or of a later record with the same name.
\<close>

theorem search_exact_match_selected:
  assumes n: "n < length evs" and exact: "name (evs ! n) = inp"
    and first: "\<forall>k<n. name (evs ! k) \<noteq> inp"
    and window: "length (filter (\<lambda>e. sublist inp (name e)) (take n evs)) < nprompt cf"
    and sel: "(\<exists>m. lp = Some m \<and> m < length evs) \<or> (\<exists>k<n. sublist inp (name (evs ! k)))"
  shows "\<exists>st sm l j. search cf yx inp evs lp = Inr (st, sm) \<and> lastp st = Some l \<and>
           l < length evs \<and> n \<le> j \<and> j < length evs \<and> name (evs ! j) = inp \<and>
           ev st ! l = evs ! j"
proof -
  let ?st0 = "\<lparr>ev = evs, lastp = lp, s_exact = False, fi = 1, scr = []\<rparr>"
  let ?sm = "count_loop evs inp (length evs) (length evs)"
  have a1: "\<not> s_exact ?st0" by simp
  have a3: "n < length (ev ?st0)" using n by simp
  have a4: "name (ev ?st0 ! n) = inp" using exact by simp
  have a5: "\<forall>k. 0 \<le> k \<and> k < n \<longrightarrow> name (ev ?st0 ! k) \<noteq> inp" using first by simp
  have "length (filter (\<lambda>k. strstr (name (evs ! k)) inp \<noteq> None) [0..<n]) =
        length (filter (\<lambda>e. sublist inp (name e)) (take n evs))"
    using filter_nth_take [of n evs "\<lambda>e. strstr (name e) inp \<noteq> None"] n
    by (simp add: strstr_None_iff)
  with window
  have a6: "fi ?st0 + length (filter (\<lambda>k. strstr (name (ev ?st0 ! k)) inp \<noteq> None) [0..<n])
      \<le> nprompt cf"
    by simp
  have a7: "(\<exists>m. lastp ?st0 = Some m \<and> m < length (ev ?st0)) \<or>
      (\<exists>k. 0 \<le> k \<and> k < n \<and> strstr (name (ev ?st0 ! k)) inp \<noteq> None)"
    using sel by (simp add: strstr_None_iff)
  from search_loop_first_exact [OF a1 _ a3 a4 a5 a6 a7, of ?sm]
  obtain st' l j where "search_loop cf inp ?sm 0 ?st0 = Inr st'"
    and "lastp st' = Some l" and "l < length evs" and "n \<le> j" and "j < length evs"
    and "name (evs ! j) = inp" and "ev st' ! l = evs ! j"
    by auto
  then show ?thesis
    by (simp add: search_def Let_def) blast
qed

theorem search_exact_match_selected_witness:
  "\<exists>st sm l. search \<lparr>mode = MODESHORT, nprompt = 30, Sflag = False\<rparr> (2, 5) ''foo''
        [\<lparr>name = ''foobar'', path = ''/bin/foobar'', siz = 200\<rparr>,
         \<lparr>name = ''foo'', path = ''/bin/foo'', siz = 100\<rparr>] None = Inr (st, sm) \<and>
      lastp st = Some l \<and> ev st ! l = \<lparr>name = ''foo'', path = ''/bin/foo'', siz = 100\<rparr>"
proof -
  let ?cf = "\<lparr>mode = MODESHORT, nprompt = 30, Sflag = False\<rparr>"
  let ?evs = "[\<lparr>name = ''foobar'', path = ''/bin/foobar'', siz = 200\<rparr>,
         \<lparr>name = ''foo'', path = ''/bin/foo'', siz = 100\<rparr>]"
  have h1: "1 < length ?evs" by simp
  have h2: "name (?evs ! 1) = ''foo''" by simp
  have h3: "\<forall>k<1. name (?evs ! k) \<noteq> ''foo''" by simp
  have h4: "length (filter (\<lambda>e. sublist ''foo'' (name e)) (take 1 ?evs)) < nprompt ?cf"
    by simp
  have h5: "(\<exists>m. None = Some m \<and> m < length ?evs) \<or> (\<exists>k<1. sublist ''foo'' (name (?evs ! k)))"
    by (simp add: sublist_code)
  from search_exact_match_selected [OF h1 h2 h3 h4 h5, of "(2, 5)"]
  obtain st sm l j where r: "search ?cf (2, 5) ''foo'' ?evs None = Inr (st, sm)"
    and l: "lastp st = Some l" and j: "1 \<le> j" "j < length ?evs"
    and e: "ev st ! l = ?evs ! j"
    by blast
  from j have "j = 1" by simp
  with e have "ev st ! l = \<lparr>name = ''foo'', path = ''/bin/foo'', siz = 100\<rparr>" by simp
  with r l show ?thesis by blast
qed

text \<open>
  C2, as stated, fails: without an exact match \<open>last\<close> is repointed at every
  substring match the traversal shows, so it ends on the last of them, not the first.
\<close>

theorem search_first_match_counterexample:
  "outcome (search \<lparr>mode = MODESHORT, nprompt = 30, Sflag = False\<rparr> (2, 5) ''fo''
      [\<lparr>name = ''foo'', path = ''/bin/foo'', siz = 100\<rparr>,
       \<lparr>name = ''foobar'', path = ''/bin/foobar'', siz = 200\<rparr>] None) =
   Inr ([\<lparr>name = ''foo'', path = ''/bin/foo'', siz = 100\<rparr>,
         \<lparr>name = ''foobar'', path = ''/bin/foobar'', siz = 200\<rparr>], Some 1, 2) \<and>
   match_indices ''fo''
      [\<lparr>name = ''foo'', path = ''/bin/foo'', siz = 100\<rparr>,
       \<lparr>name = ''foobar'', path = ''/bin/foobar'', siz = 200\<rparr>] = [0, 1]"
  by (simp add: search_eval match_indices_def upt_rec sublist_code)

text \<open>
  C2, amended: when no record is named exactly like the query and at least one name
  contains it, \<open>search\<close> leaves the array unchanged and the selection on the last of
  the first \<open>nprompt\<close> substring matches in index order.
\<close>

theorem search_selects_last_shown_match:
  assumes noexact: "\<forall>e\<in>set evs. name e \<noteq> inp"
    and some: "match_indices inp evs \<noteq> []" and np: "0 < nprompt cf"
  shows "\<exists>st sm. search cf yx inp evs lp = Inr (st, sm) \<and> ev st = evs \<and>
           lastp st = Some (last (take (nprompt cf) (match_indices inp evs)))"
proof -
  let ?st0 = "\<lparr>ev = evs, lastp = lp, s_exact = False, fi = 1, scr = []\<rparr>"
  let ?sm = "count_loop evs inp (length evs) (length evs)"
  from noexact have "\<forall>k. 0 \<le> k \<and> k < length (ev ?st0) \<longrightarrow> name (ev ?st0 ! k) \<noteq> inp"
    by simp
  from search_loop_noexact_phase [OF _ this, of cf ?sm]
  obtain st' where r: "search_loop cf inp ?sm 0 ?st0 = Inr st'" and e: "ev st' = evs"
    and l: "lastp st' = (let ms = take (nprompt cf) (match_indices inp evs)
                         in if ms = [] then lp else Some (last ms))"
    by (auto simp: match_indices_strstr)
  from some np have "take (nprompt cf) (match_indices inp evs) \<noteq> []"
    by (cases "nprompt cf") auto
  with l have "lastp st' = Some (last (take (nprompt cf) (match_indices inp evs)))"
    by (simp add: Let_def)
  with r e show ?thesis
    by (simp add: search_def Let_def)
qed

theorem search_selects_last_shown_match_witness:
  "\<exists>st sm. search \<lparr>mode = MODESHORT, nprompt = 30, Sflag = False\<rparr> (2, 5) ''fo''
      [\<lparr>name = ''foo'', path = ''/bin/foo'', siz = 100\<rparr>,
       \<lparr>name = ''foobar'', path = ''/bin/foobar'', siz = 200\<rparr>,
       \<lparr>name = ''ls'', path = ''/bin/ls'', siz = 300\<rparr>] None = Inr (st, sm) \<and>
     ev st = [\<lparr>name = ''foo'', path = ''/bin/foo'', siz = 100\<rparr>,
       \<lparr>name = ''foobar'', path = ''/bin/foobar'', siz = 200\<rparr>,
       \<lparr>name = ''ls'', path = ''/bin/ls'', siz = 300\<rparr>] \<and>
     lastp st = Some 1"
proof -
  let ?cf = "\<lparr>mode = MODESHORT, nprompt = 30, Sflag = False\<rparr>"
  let ?evs = "[\<lparr>name = ''foo'', path = ''/bin/foo'', siz = 100\<rparr>,
       \<lparr>name = ''foobar'', path = ''/bin/foobar'', siz = 200\<rparr>,
       \<lparr>name = ''ls'', path = ''/bin/ls'', siz = 300\<rparr>]"
  have m: "match_indices ''fo'' ?evs = [0, 1]"
    by (simp add: match_indices_def upt_rec sublist_code)
  have h1: "\<forall>e\<in>set ?evs. name e \<noteq> ''fo''" by simp
  have h2: "match_indices ''fo'' ?evs \<noteq> []" by (simp add: m)
  have h3: "0 < nprompt ?cf" by simp
  from search_selects_last_shown_match [OF h1 h2 h3, of "(2, 5)" None] m
  show ?thesis by simp
qed

text \<open>
  C3: \<open>search\<close> is claimed to have no failure condition, also when the query equals
  a record's name while \<open>last\<close> is still \<open>NULL\<close>. At program start \<open>last\<close> is
  \<open>NULL\<close>; with the one-record index below and the first key \<open>[\<close>, the assignment
  \<open>*last = ev[n]\<close> goes through the null pointer.
\<close>

theorem search_null_selection_faults:
  "search \<lparr>mode = MODESHORT, nprompt = 30, Sflag = False\<rparr> (2, 3) ''[''
     [\<lparr>name = ''['', path = ''/usr/bin/['', siz = 59736\<rparr>] None = Inl NullPointer"
  by (simp add: search_def search_loop.simps search_body_def)

text \<open>
  C4, as stated, fails when a later record has the same name: each exact match the
  traversal reaches is copied into the slot, so the slot ends with the contents of
  the last one. With the keys \<open>l\<close> and \<open>s\<close> typed at program start, the first call
  leaves \<open>last\<close> at slot 2; in the second, record 0 matches while \<open>last\<close> points
  at slot 2, and slot 2 ends with the contents of record 1.
\<close>

theorem search_exact_overwrites_slot_counterexample:
  "outcome (search \<lparr>mode = MODESHORT, nprompt = 30, Sflag = False\<rparr> (2, 3) ''l''
      [\<lparr>name = ''ls'', path = ''/a/ls'', siz = 100\<rparr>,
       \<lparr>name = ''ls'', path = ''/b/ls'', siz = 200\<rparr>,
       \<lparr>name = ''lsx'', path = ''/a/lsx'', siz = 300\<rparr>] None) =
   Inr ([\<lparr>name = ''ls'', path = ''/a/ls'', siz = 100\<rparr>,
         \<lparr>name = ''ls'', path = ''/b/ls'', siz = 200\<rparr>,
         \<lparr>name = ''lsx'', path = ''/a/lsx'', siz = 300\<rparr>], Some 2, 3) \<and>
   outcome (search \<lparr>mode = MODESHORT, nprompt = 30, Sflag = False\<rparr> (2, 4) ''ls''
      [\<lparr>name = ''ls'', path = ''/a/ls'', siz = 100\<rparr>,
       \<lparr>name = ''ls'', path = ''/b/ls'', siz = 200\<rparr>,
       \<lparr>name = ''lsx'', path = ''/a/lsx'', siz = 300\<rparr>] (Some 2)) =
   Inr ([\<lparr>name = ''ls'', path = ''/a/ls'', siz = 100\<rparr>,
         \<lparr>name = ''ls'', path = ''/b/ls'', siz = 200\<rparr>,
         \<lparr>name = ''ls'', path = ''/b/ls'', siz = 200\<rparr>], Some 2, 3)"
  by (simp add: search_eval)

text \<open>
  C4, amended: when the loop is at index \<open>n\<close>, record \<open>n\<close> is named exactly like
  the query and \<open>last\<close> points at slot \<open>m\<close>, the rest of the traversal returns
  normally with slot \<open>m\<close> holding the former contents of record \<open>n\<close> or of a later
  record with the same name, every other record unchanged and \<open>last\<close> still at
  slot \<open>m\<close>.
\<close>

theorem search_exact_overwrites_slot:
  assumes n: "n < length (ev st)" and fi: "fi st \<le> nprompt cf"
    and exact: "name (ev st ! n) = inp"
    and l: "lastp st = Some m" and m: "m < length (ev st)"
  shows "\<exists>st' j. search_loop cf inp sm n st = Inr st' \<and> lastp st' = Some m \<and>
           n \<le> j \<and> j < length (ev st) \<and> name (ev st ! j) = inp \<and>
           ev st' = (ev st)[m := ev st ! j] \<and> ev st' ! m = ev st ! j"
proof -
  from search_body_exact [OF exact l n m, of cf sm]
  obtain st1 where b: "search_body cf inp sm n st = Inr st1"
    and e1: "ev st1 = (ev st)[m := ev st ! n]" and s1: "s_exact st1"
    and l1: "lastp st1 = Some m"
    by auto
  from e1 m have m1: "m < length (ev st1)" by simp
  from search_loop_exact_phase [OF s1 l1 m1, of cf inp sm "Suc n"]
  obtain st' j where r: "search_loop cf inp sm (Suc n) st1 = Inr st'"
    and l': "lastp st' = Some m"
    and j: "j < length (ev st1)" and e': "ev st' = (ev st1)[m := ev st1 ! j]"
    and jc: "j = m \<or> (Suc n \<le> j \<and> name (ev st1 ! j) = inp)"
    by blast
  have loop: "search_loop cf inp sm n st = Inr st'"
    using n fi b r by (simp add: search_loop_step)
  show ?thesis
  proof (cases "j = m")
    case True
    with e' e1 m have "ev st' = (ev st)[m := ev st ! n]" by simp
    with loop l' n m exact show ?thesis
      by (intro exI [of _ st'] exI [of _ n]) simp
  next
    case False
    with e' e1 jc j have "ev st' = (ev st)[m := ev st ! j]" and "n \<le> j"
      and "j < length (ev st)" and "name (ev st ! j) = inp"
      by simp_all
    with loop l' m show ?thesis
      by (intro exI [of _ st'] exI [of _ j]) simp
  qed
qed

theorem search_exact_overwrites_slot_witness:
  "\<exists>st'. search_loop \<lparr>mode = MODESHORT, nprompt = 30, Sflag = False\<rparr> ''ls'' 2 0
            \<lparr>ev = [\<lparr>name = ''ls'', path = ''/a/ls'', siz = 100\<rparr>,
                   \<lparr>name = ''lsx'', path = ''/a/lsx'', siz = 300\<rparr>],
             lastp = Some 1, s_exact = False, fi = 1, scr = []\<rparr> = Inr st' \<and>
         lastp st' = Some 1 \<and>
         ev st' = [\<lparr>name = ''ls'', path = ''/a/ls'', siz = 100\<rparr>,
                   \<lparr>name = ''ls'', path = ''/a/ls'', siz = 100\<rparr>]"
proof -
  let ?cf = "\<lparr>mode = MODESHORT, nprompt = 30, Sflag = False\<rparr>"
  let ?evs = "[\<lparr>name = ''ls'', path = ''/a/ls'', siz = 100\<rparr>,
               \<lparr>name = ''lsx'', path = ''/a/lsx'', siz = 300\<rparr>]"
  let ?st = "\<lparr>ev = ?evs, lastp = Some 1, s_exact = False, fi = 1, scr = []\<rparr>"
  have h1: "0 < length (ev ?st)" by simp
  have h2: "fi ?st \<le> nprompt ?cf" by simp
  have h3: "name (ev ?st ! 0) = ''ls''" by simp
  have h4: "lastp ?st = Some 1" by simp
  have h5: "1 < length (ev ?st)" by simp
  from search_exact_overwrites_slot [OF h1 h2 h3 h4 h5, of 2]
  obtain st' j where r: "search_loop ?cf ''ls'' 2 0 ?st = Inr st'"
    and l: "lastp st' = Some 1" and j: "j < length (ev ?st)"
    and nm: "name (ev ?st ! j) = ''ls''" and e: "ev st' = (ev ?st)[1 := ev ?st ! j]"
    by blast
  from j nm have "j = 0" by (cases j) simp_all
  with e have "ev st' = [\<lparr>name = ''ls'', path = ''/a/ls'', siz = 100\<rparr>,
                          \<lparr>name = ''ls'', path = ''/a/ls'', siz = 100\<rparr>]"
    by simp
  with r l show ?thesis by blast
qed

text \<open>
  C5: the match count \<open>sum\<close> that \<open>search\<close> computes equals the number of records
  whose name contains the query as a substring; for the empty query this is the
  number of records in the index.
\<close>

theorem search_match_count:
  "count_loop evs inp (length evs) (length evs) =
     length (filter (\<lambda>e. sublist inp (name e)) evs) \<and>
   count_loop evs [] (length evs) (length evs) = length evs \<and>
   (\<forall>st sm. search cf yx inp evs lp = Inr (st, sm) \<longrightarrow>
      sm = length (filter (\<lambda>e. sublist inp (name e)) evs))"
  by (auto simp: count_loop_matches search_def Let_def split: sum.splits)

theorem search_match_count_witness:
  "outcome (search \<lparr>mode = MODESHORT, nprompt = 30, Sflag = False\<rparr> (2, 5) ''foo''
      [\<lparr>name = ''foo'', path = ''/bin/foo'', siz = 100\<rparr>,
       \<lparr>name = ''foobar'', path = ''/bin/foobar'', siz = 200\<rparr>,
       \<lparr>name = ''ls'', path = ''/bin/ls'', siz = 300\<rparr>] (Some 0)) =
     Inr ([\<lparr>name = ''foo'', path = ''/bin/foo'', siz = 100\<rparr>,
           \<lparr>name = ''foobar'', path = ''/bin/foobar'', siz = 200\<rparr>,
           \<lparr>name = ''ls'', path = ''/bin/ls'', siz = 300\<rparr>], Some 0, 2) \<and>
   length (filter (\<lambda>e. sublist ''foo'' (name e))
      [\<lparr>name = ''foo'', path = ''/bin/foo'', siz = 100\<rparr>,
       \<lparr>name = ''foobar'', path = ''/bin/foobar'', siz = 200\<rparr>,
       \<lparr>name = ''ls'', path = ''/bin/ls'', siz = 300\<rparr>]) = 2"
proof -
  let ?cf = "\<lparr>mode = MODESHORT, nprompt = 30, Sflag = False\<rparr>"
  let ?evs = "[\<lparr>name = ''foo'', path = ''/bin/foo'', siz = 100\<rparr>,
       \<lparr>name = ''foobar'', path = ''/bin/foobar'', siz = 200\<rparr>,
       \<lparr>name = ''ls'', path = ''/bin/ls'', siz = 300\<rparr>]"
  have o: "outcome (search ?cf (2, 5) ''foo'' ?evs (Some 0)) = Inr (?evs, Some 0, 2)"
    by (simp add: search_eval)
  then obtain st where "search ?cf (2, 5) ''foo'' ?evs (Some 0) = Inr (st, 2)"
    by (auto dest: outcome_Inr)
  with search_match_count [of ?evs "''foo''" ?cf "(2, 5)" "Some 0"]
  have "length (filter (\<lambda>e. sublist ''foo'' (name e)) ?evs) = 2"
    by metis
  with o show ?thesis by (rule conjI)
qed

text \<open>
  C9: when no record's name contains the query, \<open>search\<close> returns normally with
  match count 0 and leaves the array and the selection pointer \<open>last\<close> as they were.
\<close>

theorem search_no_match_keeps_selection:
  assumes "\<forall>e\<in>set evs. \<not> sublist inp (name e)"
  shows "\<exists>st. search cf yx inp evs lp = Inr (st, 0) \<and> ev st = evs \<and> lastp st = lp"
proof -
  let ?st0 = "\<lparr>ev = evs, lastp = lp, s_exact = False, fi = 1, scr = []\<rparr>"
  from assms have none: "\<forall>k. k < length evs \<longrightarrow> strstr (name (evs ! k)) inp = None"
    by (simp add: strstr_None_iff)
  then have "search_loop cf inp sm 0 ?st0 = Inr ?st0" for sm
    by (intro search_loop_no_match) simp
  moreover from assms have "filter (\<lambda>e. sublist inp (name e)) evs = []"
    by (simp add: filter_empty_conv)
  then have "count_loop evs inp (length evs) (length evs) = 0"
    by (simp add: count_loop_matches)
  ultimately show ?thesis
    by (simp add: search_def Let_def)
qed

theorem search_no_match_keeps_selection_witness:
  "outcome (search \<lparr>mode = MODESHORT, nprompt = 30, Sflag = False\<rparr> (2, 5) ''fox''
      [\<lparr>name = ''foo'', path = ''/bin/foo'', siz = 100\<rparr>,
       \<lparr>name = ''foobar'', path = ''/bin/foobar'', siz = 200\<rparr>] (Some 1)) =
     Inr ([\<lparr>name = ''foo'', path = ''/bin/foo'', siz = 100\<rparr>,
           \<lparr>name = ''foobar'', path = ''/bin/foobar'', siz = 200\<rparr>], Some 1, 0)"
proof -
  let ?cf = "\<lparr>mode = MODESHORT, nprompt = 30, Sflag = False\<rparr>"
  let ?evs = "[\<lparr>name = ''foo'', path = ''/bin/foo'', siz = 100\<rparr>,
       \<lparr>name = ''foobar'', path = ''/bin/foobar'', siz = 200\<rparr>]"
  have h: "\<forall>e\<in>set ?evs. \<not> sublist ''fox'' (name e)"
    by (simp add: sublist_code)
  from search_no_match_keeps_selection [OF h, of ?cf "(2, 5)" "Some 1"]
  obtain st where "search ?cf (2, 5) ''fox'' ?evs (Some 1) = Inr (st, 0)"
    and "ev st = ?evs" and "lastp st = Some 1"
    by blast
  then show ?thesis
    by (simp add: outcome_def)
qed

section \<open>The claims about the search-path list\<close>

text \<open>
  C6, as stated, fails: \<open>strtok\<close> skips every run of separators, so a leading,
  doubled or trailing \<open>:\<close> yields no entry at all.
\<close>

theorem parsepath_empty_segments_counterexample:
  "map_sum id path_list (parsepath (Some '':/bin::/usr/bin:'') (replicate MAXPATHS None) 0) =
     Inr [Some ''/bin'', Some ''/usr/bin''] \<and>
   split_on CHR '':'' '':/bin::/usr/bin:'' = [[], ''/bin'', [], ''/usr/bin'', []]"
  by (simp add: path_list_parsepath tokens_def MAXPATHS_def)

text \<open>
  C6, amended: when fewer than 512 paths are already stored (\<open>psiz < MAXPATHS\<close>),
  \<open>parsepath\<close> splits the value of \<open>PATH\<close> at \<open>:\<close> and stores the non-empty
  segments, in order, from \<open>pv[psiz]\<close> on, until the array is full; empty segments
  yield no entry.
\<close>

theorem parsepath_keeps_nonempty_segments:
  assumes "length pv = MAXPATHS" and "psiz < MAXPATHS"
  shows "\<exists>r. parsepath (Some p) pv psiz = Inr r \<and>
           path_list r = take psiz pv @
             map Some (take (MAXPATHS - psiz)
                         (filter (\<lambda>t. t \<noteq> []) (split_on CHR '':'' p))) \<and>
           snd r = psiz + length (take (MAXPATHS - psiz)
                                    (filter (\<lambda>t. t \<noteq> []) (split_on CHR '':'' p)))"
  using assms by (simp add: parsepath_tokens path_list_def tokens_def)

theorem parsepath_keeps_nonempty_segments_witness:
  "\<exists>r. parsepath (Some '':/bin::/usr/bin:'') (replicate MAXPATHS None) 0 = Inr r \<and>
       path_list r = [Some ''/bin'', Some ''/usr/bin''] \<and> snd r = 2"
  using parsepath_keeps_nonempty_segments
    [of "replicate MAXPATHS None" 0 "'':/bin::/usr/bin:''"]
  by (simp add: MAXPATHS_def numeral_2_eq_2)

text \<open>
  C7: more than 512 search paths are claimed to be a fatal error, also when the
  entries of \<open>PATH\<close> push the count past 512. With no positional argument and a
  \<open>PATH\<close> of 513 entries, \<open>parsepath\<close> returns once \<open>psiz\<close> is 512, the test
  \<open>psiz > MAXPATHS\<close> in \<open>main\<close> does not fire, and the list is the first 512
  entries.
\<close>

theorem main_paths_truncates_environment:
  "map_sum id path_list (main_paths [] False (Some (concat (replicate 513 ''/d:'')))) =
     Inr (replicate 512 (Some ''/d''))"
proof -
  let ?p = "concat (replicate 513 ''/d:'')"
  let ?pv = "replicate MAXPATHS None :: string option list"
  have "parsepath (Some ?p) ?pv 0 =
      Inr (map Some (take MAXPATHS (replicate 513 ''/d'')) @
             drop (length (take MAXPATHS (replicate 513 ''/d''))) ?pv,
           length (take MAXPATHS (replicate 513 ''/d'')))"
    using parsepath_tokens [of ?pv 0 ?p]
    by (simp add: tokens_replicate MAXPATHS_def)
  then show ?thesis
    by (simp add: main_paths_def Let_def path_list_def MAXPATHS_def)
qed

section \<open>The claim about the index\<close>

text \<open>
  C10: every record of the index that \<open>init\<close> returns has a name and a path of at
  most 2047 bytes, and an executable directory entry is never rejected for its
  length: it is stored with its name and its joined path cut to 2047 bytes.
\<close>

theorem init_records_truncated:
  assumes "init sy pv psiz = Inr st"
  shows "(\<forall>e\<in>set (iev st). length (name e) \<le> 2047 \<and> length (path e) \<le> 2047) \<and>
         (\<forall>dir ds d sz. Some dir \<in> set (take psiz pv) \<and> opendir sy dir = Some ds \<and>
            d \<in> set ds \<and> d \<noteq> ''.'' \<and> d \<noteq> ''..'' \<and>
            access_x sy (mkbuf dir d) \<and> stat_size sy (mkbuf dir d) = Some sz \<longrightarrow>
            stored dir d sz \<in> set (iev st))"
proof -
  from assms have r: "init_paths sy (take psiz pv) \<lparr>iev = [], evcap = 0, totsiz = 0\<rparr> = Inr st"
    by (auto simp: init_def split: sum.splits if_splits)
  from init_paths_bounded [OF r]
  have "\<forall>e\<in>set (iev st). length (name e) \<le> 2047 \<and> length (path e) \<le> 2047"
    by simp
  moreover from init_paths_stored [OF r]
  have "\<forall>dir ds d sz. Some dir \<in> set (take psiz pv) \<and> opendir sy dir = Some ds \<and>
            d \<in> set ds \<and> d \<noteq> ''.'' \<and> d \<noteq> ''..'' \<and>
            access_x sy (mkbuf dir d) \<and> stat_size sy (mkbuf dir d) = Some sz \<longrightarrow>
            stored dir d sz \<in> set (iev st)"
    by blast
  ultimately show ?thesis by blast
qed

theorem init_records_truncated_witness:
  "init long_sys (Some long_dir # replicate 511 None) 1 =
     Inr \<lparr>iev = [\<lparr>name = ''ls'', path = CHR ''/'' # replicate 2046 (CHR ''d''), siz = 100\<rparr>],
          evcap = 1024, totsiz = 100\<rparr> \<and>
   stored long_dir ''ls'' 100 \<in>
     set (iev \<lparr>iev = [\<lparr>name = ''ls'', path = CHR ''/'' # replicate 2046 (CHR ''d''), siz = 100\<rparr>],
               evcap = 1024, totsiz = 100\<rparr>) \<and>
   stored long_dir ''ls'' 100 =
     \<lparr>name = ''ls'', path = CHR ''/'' # replicate 2046 (CHR ''d''), siz = 100\<rparr> \<and>
   length (long_dir @ ''/ls'') = 2054"
proof -
  let ?st = "\<lparr>iev = [\<lparr>name = ''ls'', path = CHR ''/'' # replicate 2046 (CHR ''d''), siz = 100\<rparr>],
               evcap = 1024, totsiz = 100\<rparr>"
  have h: "Some long_dir \<in> set (take 1 (Some long_dir # replicate 511 None)) \<and>
      opendir long_sys long_dir = Some [''.'', ''..'', ''ls''] \<and>
      ''ls'' \<in> set [''.'', ''..'', ''ls''] \<and> ''ls'' \<noteq> ''.'' \<and> ''ls'' \<noteq> ''..'' \<and>
      access_x long_sys (mkbuf long_dir ''ls'') \<and>
      stat_size long_sys (mkbuf long_dir ''ls'') = Some 100"
    by (simp add: long_sys_def)
  from init_records_truncated [OF long_init] h
  have "stored long_dir ''ls'' 100 \<in> set (iev ?st)"
    by blast
  moreover have "stored long_dir ''ls'' 100 =
      \<lparr>name = ''ls'', path = CHR ''/'' # replicate 2046 (CHR ''d''), siz = 100\<rparr>"
    by (simp add: stored_def long_dir_def)
  moreover have "length (long_dir @ ''/ls'') = 2054"
    by (simp add: long_dir_def)
  ultimately show ?thesis
    using long_init by blast
qed

section \<open>The claim about the formatter\<close>




end
